theory Spec2Isabelle
  imports Complex_Main "HOL-Library.Log_Nat"
begin

section \<open>Data model\<close>

text \<open>
  The timeline script keeps calendar dates as objects with three numeric fields and
  events as objects carrying a date and an optional cached ordinal (\<open>dateValue\<close>).
  The calendar fields are integers (the data files hold whole years, months and days), so
  they are modelled as \<open>int\<close>. Every other JavaScript number is modelled as an exact
  \<open>real\<close>: the calendar arithmetic only adds, subtracts, multiplies by constants,
  divides by non-zero constants and takes floors, and on the magnitudes of calendar dates
  (far below \<open>2 ^ 53\<close>) the IEEE results of these operations have the same floors as
  the exact ones. The zoom handler computes with arbitrary fractions, so its arithmetic
  is modelled with the rounding of IEEE doubles (\<open>fl\<close> below). Where the script can
  divide by zero (the tooltip), the special values are modelled explicitly by \<open>js\<close> below.
\<close>

record DateType =
  year :: int
  month :: int
  day :: int

record EventType =
  date :: DateType
  name :: string
  type :: string
  description :: string
  sources :: "string list"
  dateValue :: "real option"

text \<open>\<open>CONFIG.dayStart\<close> and \<open>CONFIG.dayEnd\<close>.\<close>

definition dayStart :: real where
  "dayStart = 0"

definition dayEnd :: real where
  "dayEnd = 24 * 60"

section \<open>Calendar converter\<close>

text \<open>
  \<open>Math.floor\<close> is \<open>\<lfloor>_\<rfloor>\<close>, which yields an \<open>int\<close>; the integer is injected back
  into the reals where the script goes on computing with it.
\<close>

definition dateToNumber :: "DateType \<Rightarrow> real" where
  "dateToNumber dt =
     (let y0 = year dt; ms = month dt; d = day dt;
          y = (if ms \<le> 2 then y0 - 1 else y0);
          m = (if ms \<le> 2 then ms + 12 else ms);
          A = \<lfloor>of_int y / (100::real)\<rfloor>;
          B = (if y < 0 then 0 else 2 - A + \<lfloor>of_int A / (4::real)\<rfloor>)
      in of_int \<lfloor>365.25 * (of_int (y + 4716) :: real)\<rfloor> +
         of_int \<lfloor>30.6001 * (of_int (m + 1) :: real)\<rfloor> +
         of_int d + of_int B - 1524.5)"

text \<open>The residual \<open>F\<close> and the integer part \<open>Z\<close> of the inverse conversion.\<close>

definition numberToDate_Z :: "real \<Rightarrow> int" where
  "numberToDate_Z jd = \<lfloor>jd + 0.5\<rfloor>"

definition numberToDate_F :: "real \<Rightarrow> real" where
  "numberToDate_F jd = (jd + 0.5) - of_int (numberToDate_Z jd)"

definition numberToDate :: "real \<Rightarrow> DateType" where
  "numberToDate jd =
     (let Z = numberToDate_Z jd;
          F = numberToDate_F jd;
          A = (if Z < 2299161 then Z
               else (let alpha = \<lfloor>(of_int Z - 1867216.25) / (36524.25::real)\<rfloor>
                     in Z + 1 + alpha - \<lfloor>of_int alpha / (4::real)\<rfloor>));
          B = A + 1524;
          C = \<lfloor>(of_int B - 122.1) / (365.25::real)\<rfloor>;
          D = \<lfloor>365.25 * (of_int C :: real)\<rfloor>;
          E = \<lfloor>of_int (B - D) / (30.6001::real)\<rfloor>;
          dayv = of_int (B - D - \<lfloor>30.6001 * (of_int E :: real)\<rfloor>) + F;
          monthv = (if E < 14 then E - 1 else E - 13);
          yearv = (if monthv > 2 then C - 4716 else C - 4715)
      in \<lparr>year = \<lfloor>of_int yearv :: real\<rfloor>,
          month = \<lfloor>of_int monthv :: real\<rfloor>,
          day = \<lfloor>dayv\<rfloor>\<rparr>)"

subsection \<open>Formatting\<close>

text \<open>
  A template literal prints an integer-valued number in decimal, with a leading minus
  sign when it is negative.
\<close>

fun digits :: "nat \<Rightarrow> string" where
  "digits n =
     (if n < 10 then [''0123456789'' ! n]
      else digits (n div 10) @ [''0123456789'' ! (n mod 10)])"

declare digits.simps [simp del]

definition String_int :: "int \<Rightarrow> string" where
  "String_int i = (if i < 0 then CHR ''-'' # digits (nat (- i)) else digits (nat i))"

definition monthNames :: "string list" where
  "monthNames = [''Jan'', ''Feb'', ''Mar'', ''Apr'', ''May'', ''Jun'',
                 ''Jul'', ''Aug'', ''Sep'', ''Oct'', ''Nov'', ''Dec'']"

text \<open>
  Reading \<open>monthNames[month - 1]\<close> outside the array gives \<open>undefined\<close>, which the
  template prints as the word \<open>undefined\<close>.
\<close>

definition formatDate :: "DateType \<Rightarrow> string" where
  "formatDate dt =
     (let monthStr = (if 1 \<le> month dt \<and> month dt \<le> 12
                      then monthNames ! nat (month dt - 1) else ''undefined'');
          yearStr = (if year dt < 0 then String_int \<bar>year dt\<bar> @ '' BCE''
                     else String_int (year dt) @ '' CE'')
      in String_int (day dt) @ '' '' @ monthStr @ '' '' @ yearStr)"

text \<open>
  The rendering as the specification words it: year 0 and negative years are BCE. It is
  compared with \<open>formatDate\<close> below.
\<close>

definition formatDate_spec :: "DateType \<Rightarrow> string" where
  "formatDate_spec dt =
     String_int (day dt) @ '' '' @ monthNames ! nat (month dt - 1) @ '' '' @
     String_int \<bar>year dt\<bar> @ '' '' @ (if year dt \<le> 0 then ''BCE'' else ''CE'')"

definition processEventData :: "EventType list \<Rightarrow> EventType list" where
  "processEventData events = map (\<lambda>event. event\<lparr>dateValue := Some (dateToNumber (date event))\<rparr>) events"

subsection \<open>Validity and chronological order of calendar dates\<close>

text \<open>
  Modelled from the spec: the script has no function that validates a date or compares
  two dates; the properties about "valid" dates and "chronologically before" need both.
  A valid date has a non-zero year (negative years are BCE, and year -1 is followed by
  year 1), a month in 1..12 and a day that exists in that month of the proleptic Gregorian
  calendar. That calendar's leap rule speaks of astronomical years, where 1 BCE is year
  0: the stored year \<open>-1\<close> is the leap year 1 BCE, \<open>-5\<close> is the leap year 5 BCE.
  Chronological order is the lexicographic order on year, month and day.
\<close>

definition leap_year :: "int \<Rightarrow> bool" where
  "leap_year y = (y mod 4 = 0 \<and> (y mod 100 \<noteq> 0 \<or> y mod 400 = 0))"

definition days_in_month :: "int \<Rightarrow> int \<Rightarrow> int" where
  "days_in_month y m =
     (if m = 2 then (if leap_year y then 29 else 28)
      else if m = 4 \<or> m = 6 \<or> m = 9 \<or> m = 11 then 30 else 31)"



definition before :: "DateType \<Rightarrow> DateType \<Rightarrow> bool" where
  "before d1 d2 =
     (year d1 < year d2 \<or>
      (year d1 = year d2 \<and>
       (month d1 < month d2 \<or> (month d1 = month d2 \<and> day d1 < day d2))))"

section \<open>Year filter\<close>

text \<open>
  \<open>startYear\<close> and \<open>endYear\<close> are \<open>number | null\<close>; \<open>null\<close> is \<open>None\<close>. The
  callback starts from \<open>include = true\<close> and clears it in two successive tests.
\<close>

definition filterEvents :: "EventType list \<Rightarrow> int option \<Rightarrow> int option \<Rightarrow> EventType list" where
  "filterEvents events startYear endYear =
     filter (\<lambda>event.
        let eventYear = year (date event);
            include0 = True;
            include1 = (case startYear of
                          Some s \<Rightarrow> (if eventYear < s then False else include0)
                        | None \<Rightarrow> include0);
            include2 = (case endYear of
                          Some e \<Rightarrow> (if eventYear > e then False else include1)
                        | None \<Rightarrow> include1)
        in include2) events"

section \<open>Axis and scale builder\<close>

text \<open>
  Modelled from the spec: \<open>d3.extent\<close> and the scale objects are library code that is
  not part of the repository. \<open>d3.extent(events, d => d.dateValue)\<close> runs over the
  accessor's values in order, skips the undefined ones, and returns the pair of the
  smallest and the largest value, or a pair of \<open>undefined\<close> when there is none (\<open>None\<close>
  here).
\<close>

fun extent_step :: "(real \<times> real) option \<Rightarrow> real option \<Rightarrow> (real \<times> real) option" where
  "extent_step acc None = acc"
| "extent_step None (Some v) = Some (v, v)"
| "extent_step (Some (lo, hi)) (Some v) =
     Some (if lo > v then v else lo, if hi < v then v else hi)"

definition d3_extent :: "real option list \<Rightarrow> (real \<times> real) option" where
  "d3_extent values = foldl extent_step None values"

text \<open>A linear scale is its two domain endpoints and its two range endpoints.\<close>

record linear_scale =
  s_domain :: "real \<times> real"
  s_range :: "real \<times> real"

record point_scale =
  p_domain :: "string list"
  p_range :: "real \<times> real"

record ordinal_scale =
  o_domain :: "string list"
  o_range :: "string option list"

record scales =
  x_scale :: linear_scale
  categoryScale :: point_scale
  colorScale :: ordinal_scale
  xDay :: linear_scale

datatype error = InvalidExtent

text \<open>
  The guard is \<open>!xExtent[0] || !xExtent[1]\<close>: it holds when an endpoint is
  \<open>undefined\<close> and also when an endpoint is the number 0. The error value stands for
  \<open>Error('Invalid data for x-axis extent.')\<close>.
\<close>

definition setupScales ::
  "EventType list \<Rightarrow> real \<Rightarrow> real \<Rightarrow> string list \<Rightarrow> (string \<rightharpoonup> string) \<Rightarrow> error + scales" where
  "setupScales events width height categories colors =
     (case d3_extent (map dateValue events) of
        None \<Rightarrow> Inl InvalidExtent
      | Some (lo, hi) \<Rightarrow>
          if lo = 0 \<or> hi = 0 then Inl InvalidExtent
          else Inr \<lparr>x_scale = \<lparr>s_domain = (lo, hi), s_range = (0, width)\<rparr>,
                    categoryScale = \<lparr>p_domain = categories, p_range = (50, height - 50)\<rparr>,
                    colorScale = \<lparr>o_domain = categories, o_range = map colors categories\<rparr>,
                    xDay = \<lparr>s_domain = (lo, hi), s_range = (dayStart, dayEnd)\<rparr>\<rparr>)"

text \<open>
  The extent test of the first version of the script (\<open>xExtent[0] === undefined ||
  xExtent[1] === undefined\<close>), which reports the error and stops; it yields the base
  domain otherwise.
\<close>

definition extent_first_version :: "EventType list \<Rightarrow> error + (real \<times> real)" where
  "extent_first_version events =
     (case d3_extent (map dateValue events) of
        None \<Rightarrow> Inl InvalidExtent
      | Some (lo, hi) \<Rightarrow> Inr (lo, hi))"

section \<open>Viewport and zoom controller\<close>

text \<open>
  Modelled from the spec: the zoom transform and the methods \<open>invertX\<close>,
  \<open>rescaleX\<close>, \<open>scale\<close> and the scale's \<open>invert\<close> are library code that is not
  part of the repository. A transform is a scale factor \<open>k\<close> and a translation; \<open>invertX\<close>
  maps a pixel back through it; a linear scale's \<open>invert\<close> normalises a pixel over the
  range (a degenerate range normalises to one half) and interpolates over the domain;
  \<open>rescaleX\<close> gives the scale whose domain is the inverted range. A scale factor of
  0, where \<open>invertX\<close> divides by zero, is not modelled.
\<close>

record ZoomTransform =
  t_k :: real
  t_x :: real
  t_y :: real

definition zoomIdentity :: ZoomTransform where
  "zoomIdentity = \<lparr>t_k = 1, t_x = 0, t_y = 0\<rparr>"

definition transform_scale :: "ZoomTransform \<Rightarrow> real \<Rightarrow> ZoomTransform" where
  "transform_scale t s = \<lparr>t_k = t_k t * s, t_x = t_x t, t_y = t_y t\<rparr>"

text \<open>
  The arithmetic of doubles: the exact result of an operation, rounded to the nearest
  number with a 53-bit significand, ties to the even significand. \<open>binade\<close> is the
  binary exponent of a positive number, read off the bit length of its integer part
  (or, below 1, of the integer part of its reciprocal); lemma \<open>binade_bounds\<close> shows
  that it is the exponent. Overflow to infinity and the subnormal numbers are not
  modelled: the numbers of the zoom handler are pixel coordinates and day numbers.
\<close>

definition binade :: "real \<Rightarrow> int" where
  "binade x = (if 1 \<le> x then bitlen \<lfloor>x\<rfloor> - 1 else - bitlen (\<lceil>1 / x\<rceil> - 1))"

definition round_even :: "real \<Rightarrow> int" where
  "round_even x =
     (let f = \<lfloor>x\<rfloor>; d = x - of_int f
      in if d < 1 / 2 then f else if 1 / 2 < d then f + 1 else if even f then f else f + 1)"

definition fl :: "real \<Rightarrow> real" where
  "fl x =
     (if x = 0 then 0
      else (let e = binade \<bar>x\<bar> - 52
            in of_int (round_even (x / 2 powi e)) * 2 powi e))"

definition dadd :: "real \<Rightarrow> real \<Rightarrow> real" where
  "dadd a b = fl (a + b)"

definition dsub :: "real \<Rightarrow> real \<Rightarrow> real" where
  "dsub a b = fl (a - b)"

definition dmul :: "real \<Rightarrow> real \<Rightarrow> real" where
  "dmul a b = fl (a * b)"

definition ddiv :: "real \<Rightarrow> real \<Rightarrow> real" where
  "ddiv a b = fl (a / b)"

text \<open>
  \<open>invertX\<close> is \<open>(x - this.x) / this.k\<close>. The scale's \<open>invert\<close> normalises over the
  range, from its smaller endpoint, with \<open>(x - a) / b\<close> where \<open>b\<close> is the difference of
  the endpoints, and interpolates over the domain with \<open>a * (1 - t) + b * t\<close>.
\<close>

definition invertX :: "ZoomTransform \<Rightarrow> real \<Rightarrow> real" where
  "invertX t px = ddiv (dsub px (t_x t)) (t_k t)"

definition normalize :: "real \<Rightarrow> real \<Rightarrow> real \<Rightarrow> real" where
  "normalize a b px = (let b' = dsub b a in if b' = 0 then 1 / 2 else ddiv (dsub px a) b')"

definition interpolateNumber :: "real \<Rightarrow> real \<Rightarrow> real \<Rightarrow> real" where
  "interpolateNumber a b u = dadd (dmul a (dsub 1 u)) (dmul b u)"

definition scale_invert :: "linear_scale \<Rightarrow> real \<Rightarrow> real" where
  "scale_invert s px =
     (let (r0, r1) = s_range s; (d0, d1) = s_domain s
      in if r1 < r0 then interpolateNumber d1 d0 (normalize r1 r0 px)
         else interpolateNumber d0 d1 (normalize r0 r1 px))"

definition rescaleX :: "ZoomTransform \<Rightarrow> linear_scale \<Rightarrow> linear_scale" where
  "rescaleX t s =
     s\<lparr>s_domain := (scale_invert s (invertX t (fst (s_range s))),
                    scale_invert s (invertX t (snd (s_range s))))\<rparr>"

text \<open>
  The two successive tests of the zoom handler on \<open>newDomain\<close>; the second reads the
  pair the first may have changed. Each shift is a rounded difference, added to or
  subtracted from the other bound with a rounded operation.
\<close>

definition constrain_domain :: "real \<Rightarrow> real \<Rightarrow> real \<times> real \<Rightarrow> real \<times> real" where
  "constrain_domain minDateValue maxDateValue newDomain =
     (let nd1 = (if fst newDomain < minDateValue
                 then (let shift = dsub minDateValue (fst newDomain)
                       in (minDateValue, dadd (snd newDomain) shift))
                 else newDomain);
          nd2 = (if snd nd1 > maxDateValue
                 then (let shift = dsub (snd nd1) maxDateValue
                       in (dsub (fst nd1) shift, maxDateValue))
                 else nd1)
      in nd2)"

text \<open>
  The state the handler writes: the committed transform \<open>currentZoom\<close> and the visible
  scale \<open>newX\<close> used to place the events and the two axes. \<open>minDateValue\<close> and
  \<open>maxDateValue\<close> are the endpoints of the base scale's domain.
\<close>

record view_state =
  currentZoom :: ZoomTransform
  newX :: linear_scale

definition zoomed :: "linear_scale \<Rightarrow> ZoomTransform \<Rightarrow> view_state" where
  "zoomed x transform =
     (let minDateValue = fst (s_domain x);
          maxDateValue = snd (s_domain x);
          nx = rescaleX transform x
      in \<lparr>currentZoom = transform,
          newX = nx\<lparr>s_domain := constrain_domain minDateValue maxDateValue (s_domain nx)\<rparr>\<rparr>)"



text \<open>
  The initial transform of the variant with query parameters: the \<open>zoom\<close> parameter,
  given here as the number \<open>parseFloat\<close> returns for it (\<open>None\<close> when the parameter is
  absent or empty), scales the identity (a product with the factor 1, which no rounding
  changes). It is committed by \<open>zoom.transform\<close>, which runs the handler on the
  transform as it is.
\<close>

definition initial_currentZoom :: "real option \<Rightarrow> ZoomTransform" where
  "initial_currentZoom zoomParam =
     (case zoomParam of
        Some z \<Rightarrow> transform_scale zoomIdentity z
      | None \<Rightarrow> transform_scale zoomIdentity 1)"

text \<open>
  Modelled from the spec: the behaviour's \<open>scaleBy\<close> is library code that is not part
  of the repository. The zoom factor is bounded to \<open>scaleExtent = [1, 1000]\<close>: scaling
  by a factor multiplies the current factor and bounds the product to the extent. Only
  the scale factor is modelled; the translation that keeps the viewport centre fixed is
  not.
\<close>

definition scaleExtent :: "real \<times> real" where
  "scaleExtent = (1, 1000)"

definition scaleBy_k :: "real \<Rightarrow> real \<Rightarrow> real" where
  "scaleBy_k k0 factor = max (fst scaleExtent) (min (snd scaleExtent) (k0 * factor))"

section \<open>Tooltip\<close>

text \<open>
  The tooltip divides by the width of the base domain, which can be zero, so its numbers
  are modelled with the special values of JavaScript numbers: a finite value, \<open>NaN\<close>,
  \<open>Infinity\<close> and \<open>-Infinity\<close>. The operations follow the language's rules for them
  (the sign of a zero is not modelled: the only zero divisor here is a difference \<open>v - v\<close>,
  which is the positive zero).
\<close>

datatype 'a js = Fin 'a | NaN | PosInf | NegInf

fun js_sub :: "real js \<Rightarrow> real js \<Rightarrow> real js" where
  "js_sub (Fin a) (Fin b) = Fin (a - b)"
| "js_sub NaN _ = NaN"
| "js_sub _ NaN = NaN"
| "js_sub PosInf PosInf = NaN"
| "js_sub NegInf NegInf = NaN"
| "js_sub PosInf _ = PosInf"
| "js_sub NegInf _ = NegInf"
| "js_sub (Fin a) PosInf = NegInf"
| "js_sub (Fin a) NegInf = PosInf"

fun js_div :: "real js \<Rightarrow> real js \<Rightarrow> real js" where
  "js_div (Fin a) (Fin b) =
     (if b = 0 then (if a = 0 then NaN else if a > 0 then PosInf else NegInf)
      else Fin (a / b))"
| "js_div NaN _ = NaN"
| "js_div _ NaN = NaN"
| "js_div (Fin a) _ = Fin 0"
| "js_div PosInf (Fin b) = (if b \<ge> 0 then PosInf else NegInf)"
| "js_div NegInf (Fin b) = (if b \<ge> 0 then NegInf else PosInf)"
| "js_div _ _ = NaN"

fun js_mul :: "real js \<Rightarrow> real js \<Rightarrow> real js" where
  "js_mul (Fin a) (Fin b) = Fin (a * b)"
| "js_mul NaN _ = NaN"
| "js_mul _ NaN = NaN"
| "js_mul PosInf (Fin b) = (if b = 0 then NaN else if b > 0 then PosInf else NegInf)"
| "js_mul NegInf (Fin b) = (if b = 0 then NaN else if b > 0 then NegInf else PosInf)"
| "js_mul (Fin a) PosInf = (if a = 0 then NaN else if a > 0 then PosInf else NegInf)"
| "js_mul (Fin a) NegInf = (if a = 0 then NaN else if a > 0 then NegInf else PosInf)"
| "js_mul PosInf PosInf = PosInf"
| "js_mul NegInf NegInf = PosInf"
| "js_mul _ _ = NegInf"

text \<open>The remainder \<open>%\<close> truncates the quotient towards zero.\<close>

definition trunc :: "real \<Rightarrow> int" where
  "trunc q = (if q \<ge> 0 then \<lfloor>q\<rfloor> else \<lceil>q\<rceil>)"

fun js_rem :: "real js \<Rightarrow> real js \<Rightarrow> real js" where
  "js_rem (Fin a) (Fin b) = (if b = 0 then NaN else Fin (a - b * of_int (trunc (a / b))))"
| "js_rem NaN _ = NaN"
| "js_rem _ NaN = NaN"
| "js_rem (Fin a) _ = Fin a"
| "js_rem _ _ = NaN"

fun Math_floor :: "real js \<Rightarrow> int js" where
  "Math_floor (Fin a) = Fin \<lfloor>a\<rfloor>"
| "Math_floor NaN = NaN"
| "Math_floor PosInf = PosInf"
| "Math_floor NegInf = NegInf"

fun String_js :: "int js \<Rightarrow> string" where
  "String_js (Fin i) = String_int i"
| "String_js NaN = ''NaN''"
| "String_js PosInf = ''Infinity''"
| "String_js NegInf = ''-Infinity''"

definition padStart :: "string \<Rightarrow> nat \<Rightarrow> char \<Rightarrow> string" where
  "padStart s n c = (if length s \<ge> n then s else replicate (n - length s) c @ s)"

text \<open>
  \<open>d.dateValue!\<close> reads the optional field; an absent value is \<open>undefined\<close>, which
  arithmetic turns into \<open>NaN\<close>.
\<close>

definition dateValue_num :: "EventType \<Rightarrow> real js" where
  "dateValue_num d = (case dateValue d of Some v \<Rightarrow> Fin v | None \<Rightarrow> NaN)"

definition minutesInDay :: "real \<Rightarrow> real \<Rightarrow> EventType \<Rightarrow> real js" where
  "minutesInDay minDateValue maxDateValue d =
     (let timeSinceStart = js_sub (dateValue_num d) (Fin minDateValue);
          totalTimeSpan = js_sub (Fin maxDateValue) (Fin minDateValue)
      in js_mul (js_div timeSinceStart totalTimeSpan) (Fin (dayEnd - dayStart)))"

definition timeInDay :: "real \<Rightarrow> real \<Rightarrow> EventType \<Rightarrow> string" where
  "timeInDay minDateValue maxDateValue d =
     (let m = minutesInDay minDateValue maxDateValue d;
          hours = Math_floor (js_div m (Fin 60));
          minutes = Math_floor (js_rem m (Fin 60))
      in padStart (String_js hours) 2 CHR ''0'' @ '':'' @ padStart (String_js minutes) 2 CHR ''0'')"

text \<open>The content \<open>showInfo\<close> puts into the tooltip, one field per element.\<close>

record tooltip_content =
  tt_name :: string
  tt_date :: string
  tt_timeInDay :: string
  tt_description :: string
  tt_sources :: "string list"

definition showInfo :: "real \<Rightarrow> real \<Rightarrow> EventType \<Rightarrow> tooltip_content" where
  "showInfo minDateValue maxDateValue d =
     \<lparr>tt_name = name d,
      tt_date = formatDate (date d),
      tt_timeInDay = timeInDay minDateValue maxDateValue d,
      tt_description = description d,
      tt_sources = sources d\<rparr>"

section \<open>Auxiliary notions for the proofs\<close>

text \<open>
  The integer form of \<open>dateToNumber\<close>: the year and month after the shift of January
  and February, the day count at the start of a shifted year (with the correction term),
  the day count at the start of a shifted month, and their sum with the day. Lemma
  \<open>dateToNumber_jdn\<close> shows that \<open>dateToNumber\<close> is this sum minus 1524.5.
\<close>

definition adj_year :: "DateType \<Rightarrow> int" where
  "adj_year dt = (if month dt \<le> 2 then year dt - 1 else year dt)"

definition adj_month :: "DateType \<Rightarrow> int" where
  "adj_month dt = (if month dt \<le> 2 then month dt + 12 else month dt)"

definition year_start :: "int \<Rightarrow> int" where
  "year_start y =
     (1461 * (y + 4716)) div 4 + (if y < 0 then 0 else 2 - y div 100 + (y div 100) div 4)"

definition month_start :: "int \<Rightarrow> int" where
  "month_start m = (306001 * (m + 1)) div 10000"

definition jdn :: "DateType \<Rightarrow> int" where
  "jdn dt = year_start (adj_year dt) + month_start (adj_month dt) + day dt"

text \<open>
  The dates of the calendar the arithmetic of \<open>dateToNumber\<close> implements: a day exists
  in its month when the leap rule is applied to the year number as it is stored. A valid
  date of a positive year is such a date; of the valid dates of negative years all are
  but 29 February.
\<close>

definition code_date :: "DateType \<Rightarrow> bool" where
  "code_date dt =
     (1 \<le> month dt \<and> month dt \<le> 12 \<and>
      1 \<le> day dt \<and> day dt \<le> days_in_month (year dt) (month dt))"


text \<open>
  The integer form of \<open>numberToDate\<close> on an ordinal \<open>n - 1524.5\<close>: the value \<open>A\<close>
  computed from \<open>Z\<close>, and the date computed from \<open>B\<close>. Lemma \<open>numberToDate_decode\<close>
  shows that \<open>numberToDate\<close> is their composition.
\<close>

definition decode_A :: "int \<Rightarrow> int" where
  "decode_A Z =
     (if Z < 2299161 then Z
      else (let alpha = (4 * Z - 7468865) div 146097 in Z + 1 + alpha - alpha div 4))"

definition decode_B :: "int \<Rightarrow> DateType" where
  "decode_B B =
     (let C = (20 * B - 2442) div 7305;
          D = (1461 * C) div 4;
          E = (10000 * (B - D)) div 306001;
          monthv = (if E < 14 then E - 1 else E - 13)
      in \<lparr>year = (if monthv > 2 then C - 4716 else C - 4715),
          month = monthv,
          day = B - D - (306001 * E) div 10000\<rparr>)"

text \<open>The first day the inverse conversion decodes on its Gregorian branch.\<close>

definition gregorian_start :: DateType where
  "gregorian_start = \<lparr>year = 1582, month = 10, day = 15\<rparr>"

section \<open>Lemmas\<close>

subsection \<open>Division and remainder by 4, 100 and 400\<close>

lemma div4_succ: "(a + 1) div 4 = a div 4 + (if (a + 1) mod 4 = 0 then 1 else 0)" for a :: int
  by presburger

lemma div4_1461: "(1461 * n) div 4 = 365 * n + n div 4" for n :: int
proof -
  have "1461 * n = n + 4 * (365 * n)" by simp
  then show ?thesis by (simp only: div_mult_self2)
qed

lemma div4_1461_succ: "(1461 * (n + 1)) div 4 = (1461 * n) div 4 + 365 + (if (n + 1) mod 4 = 0 then 1 else 0)" for n :: int
  unfolding div4_1461 using div4_succ [of n] by simp

lemma div100_succ: "(y + 1) div 100 = y div 100 + (if (y + 1) mod 100 = 0 then 1 else 0)" for y :: int
proof -
  define r where "r = y mod 100"
  have r: "0 \<le> r" "r < 100" by (simp_all add: r_def)
  have d: "(y + 1) div 100 = y div 100 + (r + 1) div 100"
    using div_add1_eq [of y 1 100] by (simp add: r_def)
  have m: "(y + 1) mod 100 = (r + 1) mod 100" unfolding r_def by (simp add: mod_add_left_eq)
  show ?thesis
  proof (cases "r = 99")
    case True then show ?thesis using d m by simp
  next
    case False
    then have "r + 1 < 100" using r by simp
    then have "(r + 1) div 100 = 0" "(r + 1) mod 100 = r + 1" using r by simp_all
    then show ?thesis using d m r by simp
  qed
qed

lemma mod100_mod4: "Y mod 100 = 0 \<Longrightarrow> Y mod 4 = 0" for Y :: int
proof -
  assume a: "Y mod 100 = 0"
  have "Y mod 100 mod 4 = Y mod 4" by (rule mod_mod_cancel) simp
  then show ?thesis using a by simp
qed

lemma mod400_iff: "Y mod 100 = 0 \<Longrightarrow> (Y mod 400 = 0) = ((Y div 100) mod 4 = 0)" for Y :: int
proof -
  assume "Y mod 100 = 0"
  then have Y: "Y = 100 * (Y div 100)" using mult_div_mod_eq [of 100 Y] by simp
  have "(100 * (Y div 100)) mod (100 * 4) = 100 * ((Y div 100) mod 4)"
    by (rule mult_mod_right [symmetric])
  then have "Y mod 400 = 100 * ((Y div 100) mod 4)" using Y by simp
  then show ?thesis by simp
qed

lemma mod4_shift: "(y + 4716) mod 4 = 0 \<longleftrightarrow> y mod 4 = 0" for y :: int
  by presburger

lemma year_start_step:
  "year_start y + 365 + (if leap_year (y + 1) then 1 else 0) \<le> year_start (y + 1)"
proof -
  define f :: "int \<Rightarrow> int" where "f = (\<lambda>z. (1461 * (z + 4716)) div 4)"
  define c where "c = y div 100"
  define c4 where "c4 = c div 4"
  define b4 where "b4 = ((y + 1) mod 4 = 0)"
  define b100 where "b100 = ((y + 1) mod 100 = 0)"
  define bc where "bc = ((c + 1) mod 4 = 0)"
  define L :: int where "L = (if leap_year (y + 1) then 1 else 0)"
  have ys: "year_start z = f z + (if z < 0 then 0 else 2 - z div 100 + (z div 100) div 4)" for z
    unfolding year_start_def f_def ..
  have ys1: "year_start (y + 1) = f (y + 1) + (if y + 1 < 0 then 0 else 2 - (y + 1) div 100 + ((y + 1) div 100) div 4)"
    by (rule ys)
  have ys0: "year_start y = f y + (if y < 0 then 0 else 2 - c + c4)"
    unfolding c4_def c_def by (rule ys)
  have "y + 1 + 4716 = y + 4716 + 1" by simp
  then have "f (y + 1) = (1461 * ((y + 4716) + 1)) div 4"
    unfolding f_def by (rule arg_cong)
  also have "\<dots> = f y + 365 + (if (y + 4716 + 1) mod 4 = 0 then 1 else 0)"
    unfolding f_def by (rule div4_1461_succ)
  also have "((y + 4716 + 1) mod 4 = 0) = b4"
  proof -
    have "y + 4716 + 1 = y + 1 + 4716" by simp
    then show ?thesis unfolding b4_def using mod4_shift [of "y + 1"] by (simp only:)
  qed
  finally have a: "f (y + 1) = f y + 365 + (if b4 then 1 else 0)" .
  have "leap_year (y + 1) \<Longrightarrow> b4"
    unfolding leap_year_def b4_def by (rule conjunct1)
  then have leap_b4: "L \<le> (if b4 then 1 else 0)"
    unfolding L_def by (cases "leap_year (y + 1)") simp_all
  have "year_start y + 365 + L \<le> year_start (y + 1)"
  proof (cases "y < 0")
    case True
    show ?thesis
    proof (cases "y = - 1")
      case True
      have "year_start y = f y" unfolding ys0 using True by simp
      moreover have "year_start (y + 1) = f (y + 1) + 2" unfolding ys1 using True by simp
      ultimately show ?thesis using a leap_b4 by (simp split: if_splits)
    next
      case False
      then have "y + 1 < 0" using True by simp
      then have "year_start (y + 1) = f (y + 1)" unfolding ys1 by simp
      moreover have "year_start y = f y" using True by (simp add: ys0)
      ultimately show ?thesis using a leap_b4 by simp
    qed
  next
    case False
    then have y1: "\<not> y + 1 < 0" by simp
    have y0: "year_start y = f y + (2 - c + c4)" using False by (simp add: ys0)
    show ?thesis
    proof (cases b100)
      case True
      then have c100: "(y + 1) mod 100 = 0" by (simp add: b100_def)
      have m4: "b4" unfolding b4_def using c100 by (rule mod100_mod4)
      have A: "(y + 1) div 100 = c + 1" unfolding c_def using div100_succ [of y] c100 by simp
      have l: "leap_year (y + 1) = bc"
        unfolding leap_year_def bc_def A [symmetric]
        using mod100_mod4 [OF c100] mod400_iff [OF c100] c100 by simp
      have B: "(c + 1) div 4 = c4 + (if bc then 1 else 0)"
        unfolding c4_def bc_def by (rule div4_succ)
      have "year_start (y + 1) = f (y + 1) + (2 - (c + 1) + (c + 1) div 4)"
        unfolding ys1 A using y1 by simp
      then show ?thesis unfolding y0 L_def l B a using m4 by simp
    next
      case False
      then have c100: "(y + 1) mod 100 \<noteq> 0" by (simp add: b100_def)
      have A: "(y + 1) div 100 = c" unfolding c_def using div100_succ [of y] c100 by simp
      have "year_start (y + 1) = f (y + 1) + (2 - c + c4)"
        unfolding ys1 A c4_def using y1 by simp
      then show ?thesis unfolding y0 using a leap_b4 by simp
    qed
  qed
  then show ?thesis unfolding L_def .
qed

subsection \<open>The integer form of the forward conversion\<close>

lemma fl_36525: "\<lfloor>365.25 * (of_int n :: real)\<rfloor> = (1461 * n) div 4"
proof -
  have "365.25 * (of_int n :: real) = of_int (1461 * n) / of_int 4" by simp
  then show ?thesis by (simp only: floor_divide_of_int_eq)
qed

lemma fl_306001: "\<lfloor>30.6001 * (of_int n :: real)\<rfloor> = (306001 * n) div 10000"
proof -
  have "30.6001 * (of_int n :: real) = of_int (306001 * n) / of_int 10000" by simp
  then show ?thesis by (simp only: floor_divide_of_int_eq)
qed

lemma fl_100: "\<lfloor>(of_int n :: real) / 100\<rfloor> = n div 100"
  using floor_divide_of_int_eq [of n 100, where ?'a = real] by simp

lemma fl_4: "\<lfloor>(of_int n :: real) / 4\<rfloor> = n div 4"
  using floor_divide_of_int_eq [of n 4, where ?'a = real] by simp

lemma dateToNumber_jdn: "dateToNumber dt = of_int (jdn dt) - 1524.5"
  unfolding dateToNumber_def jdn_def year_start_def month_start_def adj_year_def adj_month_def
    Let_def fl_36525 fl_306001 fl_100 fl_4
  by simp

lemma year_start_mono: "y \<le> y' \<Longrightarrow> year_start y \<le> year_start y'"
proof (induction y' rule: int_ge_induct)
  case base
  show ?case by simp
next
  case (step i)
  have "year_start i + 365 \<le> year_start (i + 1)"
    using year_start_step [of i] by (simp split: if_splits)
  then show ?case using step.IH by simp
qed

lemma month_start_mono: "m \<le> m' \<Longrightarrow> month_start m \<le> month_start m'"
  unfolding month_start_def by (rule zdiv_mono1) simp_all

lemma month_cases:
  assumes "1 \<le> m" and "m \<le> 12"
  shows "m = 1 \<or> m = 2 \<or> m = 3 \<or> m = 4 \<or> m = 5 \<or> m = 6 \<or> m = 7 \<or> m = 8 \<or> m = 9 \<or> m = 10 \<or> m = 11 \<or> (m::int) = 12"
  using assms by arith

lemma valid_day_in_month:
  assumes "code_date dt"
  shows "month_start (adj_month dt) + day dt \<le> month_start (adj_month dt + 1)"
proof -
  have m: "1 \<le> month dt" "month dt \<le> 12" and d: "day dt \<le> days_in_month (year dt) (month dt)"
    using assms by (simp_all add: code_date_def)
  from month_cases [OF m] show ?thesis
    using d by (elim disjE) (simp_all add: adj_month_def month_start_def days_in_month_def split: if_splits)
qed

lemma valid_day_february:
  assumes "code_date dt" and "adj_month dt = 14"
  shows "month_start (adj_month dt) + day dt \<le> 487 + (if leap_year (adj_year dt + 1) then 1 else 0)"
proof -
  have "month dt \<le> 12" using assms(1) by (simp add: code_date_def)
  then have m: "month dt = 2" using assms(2) by (simp add: adj_month_def split: if_splits)
  have "day dt \<le> days_in_month (year dt) 2" using assms(1) m by (simp add: code_date_def)
  then show ?thesis using m
    by (cases "leap_year (year dt)") (simp_all add: adj_month_def adj_year_def month_start_def days_in_month_def)
qed

lemma valid_adj_month: "code_date dt \<Longrightarrow> 3 \<le> adj_month dt \<and> adj_month dt \<le> 14"
  by (simp add: code_date_def adj_month_def)

lemma valid_day_upper:
  assumes "code_date dt"
  shows "month_start (adj_month dt) + day dt \<le> 487 + (if leap_year (adj_year dt + 1) then 1 else 0)"
proof (cases "adj_month dt = 14")
  case True
  with assms show ?thesis by (rule valid_day_february)
next
  case False
  then have "adj_month dt + 1 \<le> 14" using valid_adj_month [OF assms] by simp
  then have "month_start (adj_month dt + 1) \<le> month_start 14" by (rule month_start_mono)
  moreover have "month_start 14 = 459" by (simp add: month_start_def)
  ultimately show ?thesis using valid_day_in_month [OF assms] by simp
qed

lemma valid_day_lower:
  assumes "code_date dt"
  shows "123 \<le> month_start (adj_month dt) + day dt"
proof -
  have "month_start 3 \<le> month_start (adj_month dt)"
    using valid_adj_month [OF assms] by (intro month_start_mono) simp
  moreover have "month_start 3 = 122" by (simp add: month_start_def)
  moreover have "1 \<le> day dt" using assms by (simp add: code_date_def)
  ultimately show ?thesis by simp
qed

lemma before_adjusted:
  assumes "code_date d1" and "code_date d2" and "before d1 d2"
  shows "adj_year d1 < adj_year d2 \<or>
         (adj_year d1 = adj_year d2 \<and>
          (adj_month d1 < adj_month d2 \<or> (adj_month d1 = adj_month d2 \<and> day d1 < day d2)))"
proof -
  have "1 \<le> month d1" "month d1 \<le> 12" "1 \<le> month d2" "month d2 \<le> 12"
    using assms(1,2) by (simp_all add: code_date_def)
  then show ?thesis using assms(3)
    by (auto simp: before_def adj_year_def adj_month_def)
qed

lemma jdn_strict_mono:
  assumes v1: "code_date d1" and v2: "code_date d2" and b: "before d1 d2"
  shows "jdn d1 < jdn d2"
proof -
  from before_adjusted [OF assms]
  consider (year) "adj_year d1 < adj_year d2"
    | (month) "adj_year d1 = adj_year d2" "adj_month d1 < adj_month d2"
    | (day) "adj_year d1 = adj_year d2" "adj_month d1 = adj_month d2" "day d1 < day d2"
    by blast
  then show ?thesis
  proof cases
    case year
    then have "adj_year d1 + 1 \<le> adj_year d2" by simp
    then have "year_start (adj_year d1 + 1) \<le> year_start (adj_year d2)" by (rule year_start_mono)
    then show ?thesis
      using year_start_step [of "adj_year d1"] valid_day_upper [OF v1] valid_day_lower [OF v2]
      by (simp add: jdn_def)
  next
    case month
    then have "adj_month d1 + 1 \<le> adj_month d2" by simp
    then have "month_start (adj_month d1 + 1) \<le> month_start (adj_month d2)" by (rule month_start_mono)
    moreover have "1 \<le> day d2" using v2 by (simp add: code_date_def)
    ultimately show ?thesis using valid_day_in_month [OF v1] month(1) by (simp add: jdn_def)
  next
    case day
    then show ?thesis by (simp add: jdn_def)
  qed
qed

subsection \<open>Where the round trip holds\<close>

lemma div_unique_int: "b * q \<le> a \<Longrightarrow> a < b * q + b \<Longrightarrow> a div b = q" for a b q :: int
  by (rule int_div_pos_eq [where r = "a - b * q"]) simp_all

lemma fl_C: "\<lfloor>(of_int b - 122.1) / (365.25::real)\<rfloor> = (20 * b - 2442) div 7305"
proof -
  have "(of_int b - 122.1) / (365.25::real) = of_int (20 * b - 2442) / of_int 7305" by simp
  then show ?thesis by (simp only: floor_divide_of_int_eq)
qed

lemma fl_E: "\<lfloor>of_int n / (30.6001::real)\<rfloor> = (10000 * n) div 306001"
proof -
  have "of_int n / (30.6001::real) = of_int (10000 * n) / of_int 306001" by simp
  then show ?thesis by (simp only: floor_divide_of_int_eq)
qed

lemma fl_alpha: "\<lfloor>(of_int z - 1867216.25) / (36524.25::real)\<rfloor> = (4 * z - 7468865) div 146097"
proof -
  have "(of_int z - 1867216.25) / (36524.25::real) = of_int (4 * z - 7468865) / of_int 146097" by simp
  then show ?thesis by (simp only: floor_divide_of_int_eq)
qed

lemma numberToDate_decode: "numberToDate (of_int n - 1524.5) = decode_B (decode_A (n - 1524) + 1524)"
proof -
  have Z: "numberToDate_Z (of_int n - 1524.5) = n - 1524"
    unfolding numberToDate_Z_def by linarith
  have F: "numberToDate_F (of_int n - 1524.5) = 0"
    unfolding numberToDate_F_def Z by simp
  have "numberToDate (of_int n - 1524.5) =
        (let B = decode_A (n - 1524) + 1524;
             C = (20 * B - 2442) div 7305;
             D = (1461 * C) div 4;
             E = (10000 * (B - D)) div 306001;
             dayv = of_int (B - D - (306001 * E) div 10000) + (0::real);
             monthv = (if E < 14 then E - 1 else E - 13);
             yearv = (if monthv > 2 then C - 4716 else C - 4715)
         in \<lparr>year = \<lfloor>of_int yearv :: real\<rfloor>, month = \<lfloor>of_int monthv :: real\<rfloor>, day = \<lfloor>dayv\<rfloor>\<rparr>)"
    unfolding numberToDate_def Z F fl_alpha fl_4 fl_C fl_E fl_36525 fl_306001 decode_A_def [symmetric]
    by (simp only: Let_def)
  also have "\<dots> = decode_B (decode_A (n - 1524) + 1524)"
    unfolding decode_B_def Let_def by simp
  finally show ?thesis .
qed

lemma mod4_leap_shift: "(y + 1) mod 4 = 0 \<Longrightarrow> (y + 4716) mod 4 = 3" for y :: int
  by presburger

lemma shifted_year_of_day_count:
  fixes c o' :: int
  assumes lo: "123 \<le> o'" and hi: "o' \<le> 487 + (if c mod 4 = 3 then 1 else 0)"
  shows "(20 * ((1461 * c) div 4 + o') - 2442) div 7305 = c"
proof -
  define q where "q = c div 4"
  define r where "r = c mod 4"
  have c: "c = 4 * q + r" unfolding q_def r_def by simp
  have r: "0 \<le> r" "r < 4" unfolding r_def by simp_all
  have J: "(1461 * c) div 4 = 365 * c + q" unfolding q_def by (rule div4_1461)
  have hi': "o' \<le> 487 + (if r = 3 then 1 else 0)" using hi by (simp only: r_def)
  have e: "20 * ((1461 * c) div 4 + o') - 2442 = 7305 * c + (20 * o' - 5 * r - 2442)"
    unfolding J using c by simp
  show ?thesis
    unfolding e
  proof (rule div_unique_int)
    show "7305 * c \<le> 7305 * c + (20 * o' - 5 * r - 2442)" using lo r by simp
    show "7305 * c + (20 * o' - 5 * r - 2442) < 7305 * c + 7305"
      using hi' r by (simp split: if_splits)
  qed
qed

lemma month_of_day_count:
  assumes "code_date dt"
  shows "(10000 * (month_start (adj_month dt) + day dt)) div 306001 = adj_month dt + 1"
proof -
  have m: "1 \<le> month dt" "month dt \<le> 12" and d1: "1 \<le> day dt"
    and d: "day dt \<le> days_in_month (year dt) (month dt)"
    using assms by (simp_all add: code_date_def)
  have key: "(10000 * (ms + day dt)) div 306001 = k"
    if "day dt \<le> dmax" "306001 * k \<le> 10000 * (ms + 1)" "10000 * (ms + dmax) < 306001 * k + 306001"
    for ms k dmax :: int
  proof (rule div_unique_int)
    show "306001 * k \<le> 10000 * (ms + day dt)" using that(2) d1 by simp
    show "10000 * (ms + day dt) < 306001 * k + 306001" using that(1,3) by simp
  qed
  have feb: "days_in_month (year dt) 2 \<le> 29" by (simp add: days_in_month_def)
  from month_cases [OF m] show ?thesis
  proof (elim disjE)
    assume "month dt = 1"
    then show ?thesis using d key [where dmax = 31 and ms = 428 and k = 14]
      by (simp add: adj_month_def month_start_def days_in_month_def)
  next
    assume "month dt = 2"
    then show ?thesis using d feb key [where dmax = 29 and ms = 459 and k = 15]
      by (simp add: adj_month_def month_start_def)
  next
    assume "month dt = 3"
    then show ?thesis using d key [where dmax = 31 and ms = 122 and k = 4]
      by (simp add: adj_month_def month_start_def days_in_month_def)
  next
    assume "month dt = 4"
    then show ?thesis using d key [where dmax = 30 and ms = 153 and k = 5]
      by (simp add: adj_month_def month_start_def days_in_month_def)
  next
    assume "month dt = 5"
    then show ?thesis using d key [where dmax = 31 and ms = 183 and k = 6]
      by (simp add: adj_month_def month_start_def days_in_month_def)
  next
    assume "month dt = 6"
    then show ?thesis using d key [where dmax = 30 and ms = 214 and k = 7]
      by (simp add: adj_month_def month_start_def days_in_month_def)
  next
    assume "month dt = 7"
    then show ?thesis using d key [where dmax = 31 and ms = 244 and k = 8]
      by (simp add: adj_month_def month_start_def days_in_month_def)
  next
    assume "month dt = 8"
    then show ?thesis using d key [where dmax = 31 and ms = 275 and k = 9]
      by (simp add: adj_month_def month_start_def days_in_month_def)
  next
    assume "month dt = 9"
    then show ?thesis using d key [where dmax = 30 and ms = 306 and k = 10]
      by (simp add: adj_month_def month_start_def days_in_month_def)
  next
    assume "month dt = 10"
    then show ?thesis using d key [where dmax = 31 and ms = 336 and k = 11]
      by (simp add: adj_month_def month_start_def days_in_month_def)
  next
    assume "month dt = 11"
    then show ?thesis using d key [where dmax = 30 and ms = 367 and k = 12]
      by (simp add: adj_month_def month_start_def days_in_month_def)
  next
    assume "month dt = 12"
    then show ?thesis using d key [where dmax = 31 and ms = 397 and k = 13]
      by (simp add: adj_month_def month_start_def days_in_month_def)
  qed
qed

lemma decode_B_eq:
  assumes "C = (20 * B - 2442) div 7305" and "B - (1461 * C) div 4 = d" and "E = (10000 * d) div 306001"
  shows "decode_B B =
           \<lparr>year = (if (if E < 14 then E - 1 else E - 13) > 2 then C - 4716 else C - 4715),
            month = (if E < 14 then E - 1 else E - 13),
            day = d - (306001 * E) div 10000\<rparr>"
  unfolding decode_B_def Let_def assms(1) [symmetric] assms(2) assms(3) [symmetric]
  by simp

lemma decode_B_valid:
  assumes v: "code_date dt"
  shows "decode_B ((1461 * (adj_year dt + 4716)) div 4 + month_start (adj_month dt) + day dt) = dt"
proof -
  define c where "c = adj_year dt + 4716"
  define o' where "o' = month_start (adj_month dt) + day dt"
  have lo: "123 \<le> o'" unfolding o'_def using v by (rule valid_day_lower)
  have "leap_year (adj_year dt + 1) \<Longrightarrow> c mod 4 = 3"
    unfolding c_def leap_year_def using mod4_leap_shift [of "adj_year dt"] by simp
  then have hi: "o' \<le> 487 + (if c mod 4 = 3 then 1 else 0)"
    using valid_day_upper [OF v] unfolding o'_def by (simp split: if_splits)
  have C: "(20 * ((1461 * c) div 4 + o') - 2442) div 7305 = c"
    using lo hi by (rule shifted_year_of_day_count)
  have E: "(10000 * o') div 306001 = adj_month dt + 1"
    unfolding o'_def using v by (rule month_of_day_count)
  have ms: "(306001 * (adj_month dt + 1)) div 10000 = month_start (adj_month dt)"
    unfolding month_start_def ..
  have m: "1 \<le> month dt" "month dt \<le> 12" using v by (simp_all add: code_date_def)
  have B: "(1461 * (adj_year dt + 4716)) div 4 + month_start (adj_month dt) + day dt = (1461 * c) div 4 + o'"
    by (simp add: c_def o'_def)
  have "decode_B ((1461 * c) div 4 + o') =
        \<lparr>year = (if (if adj_month dt + 1 < 14 then adj_month dt + 1 - 1 else adj_month dt + 1 - 13) > 2
                 then c - 4716 else c - 4715),
         month = (if adj_month dt + 1 < 14 then adj_month dt + 1 - 1 else adj_month dt + 1 - 13),
         day = o' - (306001 * (adj_month dt + 1)) div 10000\<rparr>"
  proof (rule decode_B_eq)
    show "c = (20 * ((1461 * c) div 4 + o') - 2442) div 7305" using C by simp
    show "(1461 * c) div 4 + o' - (1461 * c) div 4 = o'" by simp
    show "adj_month dt + 1 = (10000 * o') div 306001" using E by simp
  qed
  also have "\<dots> = dt"
    unfolding ms using m by (simp add: c_def o'_def adj_month_def adj_year_def)
  finally show ?thesis unfolding B .
qed

lemma roundtrip_negative_years:
  assumes v: "code_date dt" and neg: "year dt < 0"
  shows "numberToDate (dateToNumber dt) = dt"
proof -
  have ay: "adj_year dt < 0" using neg by (simp add: adj_year_def)
  have n: "jdn dt = (1461 * (adj_year dt + 4716)) div 4 + month_start (adj_month dt) + day dt"
    using ay by (simp add: jdn_def year_start_def)
  have "year_start (adj_year dt) \<le> year_start 0" using ay by (intro year_start_mono) simp
  moreover have "year_start 0 = 1722521" by (simp add: year_start_def)
  ultimately have "jdn dt - 1524 < 2299161"
    using valid_day_upper [OF v] by (simp add: jdn_def split: if_splits)
  then have A: "decode_A (jdn dt - 1524) = jdn dt - 1524" by (simp add: decode_A_def)
  show ?thesis
    unfolding dateToNumber_jdn numberToDate_decode A
    using decode_B_valid [OF v] n by simp
qed

lemma div4_shift_4716: "(y + 4716) div 4 = y div 4 + 1179" for y :: int
  by presburger

lemma div4_minus4: "(a - 4) div 4 = a div 4 - 1" for a :: int
  by presburger

lemma mod4_pred: "(a + 1) mod 4 = 0 \<Longrightarrow> a mod 4 = 3" for a :: int
  by presburger

lemma mod100_99_mod4: "y mod 100 = 99 \<Longrightarrow> y mod 4 = 3" for y :: int
proof -
  assume a: "y mod 100 = 99"
  have "y mod 100 mod 4 = y mod 4" by (rule mod_mod_cancel) simp
  then show ?thesis using a by simp
qed

lemma mod100_99_succ: "y mod 100 = 99 \<Longrightarrow> (y + 1) mod 100 = 0" for y :: int
proof -
  assume a: "y mod 100 = 99"
  have "(y + 1) mod 100 = (y mod 100 + 1) mod 100" by (simp add: mod_add_left_eq)
  then show ?thesis using a by simp
qed

lemma century_of_day_count:
  fixes y o' :: int
  assumes y0: "0 \<le> y" and lo: "123 \<le> o'"
    and hi: "o' \<le> 487 + (if leap_year (y + 1) then 1 else 0)"
  shows "(4 * (year_start y + o' - 1524) - 7468865) div 146097 = y div 100 - 4"
proof -
  define a where "a = y div 100"
  define r where "r = y mod 100"
  define q where "q = y div 4"
  define sy where "sy = y mod 4"
  define qa where "qa = a div 4"
  define sa where "sa = a mod 4"
  have y100: "y = 100 * a + r" unfolding a_def r_def by simp
  have y4: "y = 4 * q + sy" unfolding q_def sy_def by simp
  have a4: "a = 4 * qa + sa" unfolding qa_def sa_def by simp
  have r: "0 \<le> r" "r < 100" unfolding r_def by simp_all
  have sy: "0 \<le> sy" "sy < 4" unfolding sy_def by simp_all
  have sa: "0 \<le> sa" "sa < 4" unfolding sa_def by simp_all
  have f1: "r = 0 \<Longrightarrow> sy = 0"
    unfolding r_def sy_def by (rule mod100_mod4)
  have f2: "r = 99 \<Longrightarrow> sy = 3"
    unfolding r_def sy_def by (rule mod100_99_mod4)
  have f3: "sa = 3" if "r = 99" and l: "leap_year (y + 1)"
  proof -
    have c: "(y + 1) mod 100 = 0" using that(1) unfolding r_def by (rule mod100_99_succ)
    have "(y + 1) mod 400 = 0" using l c by (simp add: leap_year_def)
    then have "((y + 1) div 100) mod 4 = 0" using mod400_iff [OF c] by simp
    moreover have "(y + 1) div 100 = a + 1" unfolding a_def using div100_succ [of y] c by simp
    ultimately show ?thesis unfolding sa_def by (simp add: mod4_pred)
  qed
  have hi': "o' \<le> 488" "r = 99 \<Longrightarrow> sa \<noteq> 3 \<Longrightarrow> o' \<le> 487"
    using hi f3 by (auto split: if_splits)
  have ys: "year_start y = 365 * (y + 4716) + (q + 1179) + (2 - a + qa)"
    using y0 by (simp add: year_start_def div4_1461 div4_shift_4716 a_def q_def qa_def)
  have e: "4 * (year_start y + o' - 1524) - 7468865 =
           146097 * (a - 4) + (1461 * r - sy - sa + 4 * o' - 489)"
    unfolding ys using y100 y4 a4 by simp
  have X0: "0 \<le> 1461 * r - sy - sa + 4 * o' - 489"
  proof (cases "r = 0")
    case True
    then show ?thesis using f1 lo sa by simp
  next
    case False
    then have "1 \<le> r" using r by simp
    then show ?thesis using lo sa sy by simp
  qed
  have X1: "1461 * r - sy - sa + 4 * o' - 489 < 146097"
  proof (cases "r = 99")
    case True
    show ?thesis
    proof (cases "sa = 3")
      case True
      then show ?thesis using \<open>r = 99\<close> f2 hi'(1) by simp
    next
      case False
      then show ?thesis using \<open>r = 99\<close> f2 hi'(2) sa by simp
    qed
  next
    case False
    then have "r \<le> 98" using r by simp
    then show ?thesis using hi'(1) sy sa by simp
  qed
  show ?thesis
    unfolding e a_def [symmetric]
  proof (rule div_unique_int)
    show "146097 * (a - 4) \<le> 146097 * (a - 4) + (1461 * r - sy - sa + 4 * o' - 489)"
      using X0 by simp
    show "146097 * (a - 4) + (1461 * r - sy - sa + 4 * o' - 489) < 146097 * (a - 4) + 146097"
      using X1 by simp
  qed
qed

lemma roundtrip_gregorian:
  assumes v: "code_date dt" and g: "dt = gregorian_start \<or> before gregorian_start dt"
  shows "numberToDate (dateToNumber dt) = dt"
proof -
  have vg: "code_date gregorian_start" by code_simp
  have jg: "jdn gregorian_start = 2300685" by code_simp
  have "jdn gregorian_start \<le> jdn dt"
    using g jdn_strict_mono [OF vg v] by auto
  then have Z: "2299161 \<le> jdn dt - 1524" using jg by simp
  have "1582 \<le> year dt" using g by (auto simp: gregorian_start_def before_def)
  then have ay: "0 \<le> adj_year dt" by (simp add: adj_year_def)
  define o' where "o' = month_start (adj_month dt) + day dt"
  define a where "a = adj_year dt div 100"
  have lo: "123 \<le> o'" unfolding o'_def using v by (rule valid_day_lower)
  have hi: "o' \<le> 487 + (if leap_year (adj_year dt + 1) then 1 else 0)"
    unfolding o'_def using v by (rule valid_day_upper)
  have n: "jdn dt = year_start (adj_year dt) + o'"
    by (simp add: jdn_def o'_def)
  have alpha: "(4 * (jdn dt - 1524) - 7468865) div 146097 = a - 4"
    unfolding n a_def using century_of_day_count [OF ay lo hi] by simp
  have A: "decode_A (jdn dt - 1524) = jdn dt - 1524 + 1 + (a - 4) - (a div 4 - 1)"
  proof -
    have "\<not> jdn dt - 1524 < 2299161" using Z by simp
    then have "decode_A (jdn dt - 1524) = jdn dt - 1524 + 1 + (a - 4) - (a - 4) div 4"
      unfolding decode_A_def Let_def alpha by (simp only: if_False)
    then show ?thesis by (simp only: div4_minus4)
  qed
  have ys: "year_start (adj_year dt) = (1461 * (adj_year dt + 4716)) div 4 + (2 - a + a div 4)"
    using ay by (simp add: year_start_def a_def)
  have "decode_A (jdn dt - 1524) + 1524 = jdn dt + a - a div 4 - 2"
    using A by simp
  also have "\<dots> = (1461 * (adj_year dt + 4716)) div 4 + month_start (adj_month dt) + day dt"
    unfolding n ys o'_def by simp
  finally have B: "decode_A (jdn dt - 1524) + 1524 =
           (1461 * (adj_year dt + 4716)) div 4 + month_start (adj_month dt) + day dt" .
  show ?thesis
    unfolding dateToNumber_jdn numberToDate_decode B by (rule decode_B_valid [OF v])
qed

subsection \<open>Valid dates and the dates of the arithmetic\<close>





lemma fl_half: "\<lfloor>of_int k + (1 / 2 :: real)\<rfloor> = k"
  by linarith

subsection \<open>Month names\<close>

lemma monthNames_length3: "1 \<le> m \<Longrightarrow> m \<le> 12 \<Longrightarrow> length (monthNames ! nat (m - 1)) = 3"
proof -
  assume "1 \<le> m" "m \<le> 12"
  then have "m = 1 \<or> m = 2 \<or> m = 3 \<or> m = 4 \<or> m = 5 \<or> m = 6 \<or> m = 7 \<or> m = 8 \<or> m = 9 \<or> m = 10 \<or> m = 11 \<or> m = 12"
    by arith
  then show ?thesis by (auto simp: monthNames_def)
qed

subsection \<open>Extent\<close>

lemma foldl_extent_step_ordered:
  "(\<And>lo hi. acc = Some (lo, hi) \<Longrightarrow> lo \<le> hi) \<Longrightarrow>
   foldl extent_step acc vs = Some (lo, hi) \<Longrightarrow> lo \<le> hi"
proof (induction vs arbitrary: acc)
  case Nil
  then show ?case by simp
next
  case (Cons v vs)
  show ?case
  proof (rule Cons.IH [of "extent_step acc v"])
    fix l h assume "extent_step acc v = Some (l, h)"
    then show "l \<le> h" using Cons.prems(1)
      by (cases acc; cases v) (auto split: if_splits)
  next
    show "foldl extent_step (extent_step acc v) vs = Some (lo, hi)"
      using Cons.prems(2) by simp
  qed
qed

lemma d3_extent_ordered: "d3_extent vs = Some (lo, hi) \<Longrightarrow> lo \<le> hi"
  unfolding d3_extent_def by (rule foldl_extent_step_ordered [of None]) simp_all

lemma foldl_extent_step_bounds:
  assumes "foldl extent_step acc vs = Some (lo, hi)"
  shows "(Some u \<in> set vs \<longrightarrow> lo \<le> u \<and> u \<le> hi) \<and>
         (\<forall>l h. acc = Some (l, h) \<longrightarrow> lo \<le> l \<and> h \<le> hi)"
  using assms
proof (induction vs arbitrary: acc)
  case Nil
  then show ?case by simp
next
  case (Cons v vs)
  have run: "foldl extent_step (extent_step acc v) vs = Some (lo, hi)"
    using Cons.prems by simp
  note ih = Cons.IH [OF run]
  have tail: "Some u \<in> set vs \<longrightarrow> lo \<le> u \<and> u \<le> hi"
    using ih by blast
  have acc': "extent_step acc v = Some (l, h) \<Longrightarrow> lo \<le> l \<and> h \<le> hi" for l h
    using ih by blast
  have here: "v = Some u \<Longrightarrow> lo \<le> u \<and> u \<le> hi"
  proof -
    assume v: "v = Some u"
    show ?thesis
    proof (cases acc)
      case None
      then show ?thesis using acc' [of u u] v by simp
    next
      case (Some p)
      obtain l h where p: "p = (l, h)" by (cases p)
      show ?thesis
        using acc' [of "if l > u then u else l" "if h < u then u else h"] v Some p
        by (simp split: if_splits)
    qed
  qed
  have old: "acc = Some (l, h) \<Longrightarrow> lo \<le> l \<and> h \<le> hi" for l h
  proof -
    assume a: "acc = Some (l, h)"
    show ?thesis
    proof (cases v)
      case None
      then show ?thesis using acc' [of l h] a by simp
    next
      case (Some w)
      show ?thesis
        using acc' [of "if l > w then w else l" "if h < w then w else h"] a Some
        by (simp split: if_splits)
    qed
  qed
  show ?case using tail here old by auto
qed

lemma d3_extent_bounds:
  "d3_extent vs = Some (lo, hi) \<Longrightarrow> Some u \<in> set vs \<Longrightarrow> lo \<le> u \<and> u \<le> hi"
  unfolding d3_extent_def using foldl_extent_step_bounds [of None vs lo hi u] by simp

lemma foldl_extent_step_None:
  "foldl extent_step acc vs = None \<longleftrightarrow> acc = None \<and> (\<forall>v \<in> set vs. v = None)"
proof (induction vs arbitrary: acc)
  case Nil
  show ?case by simp
next
  case (Cons v vs)
  have "extent_step acc v = None \<longleftrightarrow> acc = None \<and> v = None"
    by (cases acc; cases v) auto
  then show ?case using Cons.IH [of "extent_step acc v"] by auto
qed

lemma d3_extent_None_iff: "d3_extent vs = None \<longleftrightarrow> (\<forall>v \<in> set vs. v = None)"
  by (simp add: d3_extent_def foldl_extent_step_None)

lemma setupScales_error_iff:
  "setupScales events w h cs cols = Inl InvalidExtent \<longleftrightarrow>
     (\<forall>e \<in> set events. dateValue e = None) \<or>
     (\<exists>lo hi. d3_extent (map dateValue events) = Some (lo, hi) \<and> (lo = 0 \<or> hi = 0))"
proof (cases "d3_extent (map dateValue events)")
  case None
  then have "\<forall>e \<in> set events. dateValue e = None"
    using d3_extent_None_iff [of "map dateValue events"] by simp
  then show ?thesis using None by (simp add: setupScales_def)
next
  case (Some p)
  then have "\<not> (\<forall>e \<in> set events. dateValue e = None)"
    using d3_extent_None_iff [of "map dateValue events"] by simp
  then show ?thesis using Some by (cases p) (simp add: setupScales_def)
qed

lemma setupScales_single_point:
  "v \<noteq> 0 \<Longrightarrow> \<exists>sc. setupScales [ev\<lparr>dateValue := Some v\<rparr>] w h cs cols = Inr sc \<and>
     s_domain (x_scale sc) = (v, v)"
  by (simp add: setupScales_def d3_extent_def)

lemma setupScales_domain_ordered:
  "setupScales events w h cs cols = Inr sc \<Longrightarrow> fst (s_domain (x_scale sc)) \<le> snd (s_domain (x_scale sc))"
  by (auto simp: setupScales_def split: option.splits prod.splits if_splits dest: d3_extent_ordered)

subsection \<open>Rescaling and clamping\<close>

lemma constrain_domain_upper: "snd (constrain_domain mn mx nd) \<le> mx"
  by (simp add: constrain_domain_def Let_def)

lemma constrain_domain_lower:
  assumes "(if fst nd < mn then dadd (snd nd) (dsub mn (fst nd)) else snd nd) \<le> mx"
  shows "mn \<le> fst (constrain_domain mn mx nd)"
  using assms by (auto simp: constrain_domain_def Let_def)

lemma bitlen_pos_bounds:
  assumes "0 < m"
  shows "\<exists>b. bitlen m = int b + 1 \<and> (2::real) ^ b \<le> of_int m \<and> of_int m + 1 \<le> (2::real) ^ Suc b"
proof -
  have "bitlen m \<noteq> 0" using assms by (simp add: bitlen_eq_zero_iff)
  then have b1: "1 \<le> bitlen m" using bitlen_nonneg [of m] by linarith
  define b where "b = nat (bitlen m - 1)"
  have bl: "bitlen m = int b + 1" using b1 by (simp add: b_def)
  have nb: "nat (bitlen m) = Suc b" using b1 by (simp add: b_def)
  from bitlen_bounds [OF assms] have lo: "2 ^ b \<le> m" and hi: "m < 2 ^ Suc b"
    unfolding nb b_def [symmetric] by simp_all
  have "(2::real) ^ b \<le> of_int m"
    using lo of_int_le_iff [of "2 ^ b" m, where ?'a = real] by simp
  moreover have "m + 1 \<le> 2 ^ Suc b" using hi by linarith
  then have "of_int m + 1 \<le> (2::real) ^ Suc b"
    using of_int_le_iff [of "m + 1" "2 ^ Suc b", where ?'a = real] by simp
  ultimately show ?thesis using bl by blast
qed

lemma binade_bounds:
  assumes "0 < x"
  shows "2 powi (binade x) \<le> x \<and> x < 2 powi (binade x + 1)"
proof (cases "1 \<le> x")
  case True
  then have "0 < \<lfloor>x\<rfloor>" by linarith
  from bitlen_pos_bounds [OF this] obtain b where
    bl: "bitlen \<lfloor>x\<rfloor> = int b + 1" and lo: "(2::real) ^ b \<le> of_int \<lfloor>x\<rfloor>"
    and hi: "of_int \<lfloor>x\<rfloor> + 1 \<le> (2::real) ^ Suc b" by blast
  have e: "binade x = int b" using True bl by (simp add: binade_def)
  have "(2::real) ^ b \<le> x" using lo by linarith
  moreover have "x < (2::real) ^ Suc b" using hi by linarith
  moreover have "(2::real) powi (int b) = 2 ^ b" by simp
  moreover have "(2::real) powi (int b + 1) = 2 ^ Suc b"
    using power_int_of_nat [of "2::real" "Suc b"] by (simp add: add.commute)
  ultimately show ?thesis unfolding e by simp
next
  case False
  define y where "y = 1 / x"
  have y1: "1 < y" using False assms by (simp add: y_def)
  have xy: "x = 1 / y" by (simp add: y_def)
  define m where "m = \<lceil>y\<rceil> - 1"
  have m0: "0 < m" using y1 unfolding m_def by linarith
  have my: "of_int m < y" "y \<le> of_int m + 1" unfolding m_def by linarith+
  from bitlen_pos_bounds [OF m0] obtain b where
    bl: "bitlen m = int b + 1" and lo: "(2::real) ^ b \<le> of_int m"
    and hi: "of_int m + 1 \<le> (2::real) ^ Suc b" by blast
  have e: "binade x = - (int b + 1)"
    using False bl by (simp add: binade_def m_def y_def)
  have ylo: "(2::real) ^ b < y" using lo my(1) by linarith
  have yhi: "y \<le> (2::real) ^ Suc b" using hi my(2) by linarith
  have h: "(2::real) powi (int b + 1) = 2 ^ Suc b"
    using power_int_of_nat [of "2::real" "Suc b"] by (simp add: add.commute)
  have p1: "(2::real) powi (- (int b + 1)) = 1 / 2 ^ Suc b"
    unfolding power_int_minus h by (simp only: inverse_eq_divide)
  have p2: "(2::real) powi (- (int b + 1) + 1) = 1 / 2 ^ b"
    using power_int_minus [of "2::real" "int b"] by (simp add: inverse_eq_divide)
  have "1 / 2 ^ Suc b \<le> 1 / y"
    using yhi y1 by (intro divide_left_mono) simp_all
  then have a: "1 / 2 ^ Suc b \<le> x" unfolding xy .
  have "1 / y < 1 / 2 ^ b"
  proof (rule divide_strict_left_mono [OF ylo])
    show "(0::real) < 1" by simp
    have "0 < y" using y1 by simp
    then show "0 < y * 2 ^ b" by simp
  qed
  then have b: "x < 1 / 2 ^ b" unfolding xy .
  show ?thesis unfolding e p1 p2 using a b by blast
qed

lemma scaleBy_k_bounds: "1 \<le> scaleBy_k k0 factor \<and> scaleBy_k k0 factor \<le> 1000"
  by (simp add: scaleBy_k_def scaleExtent_def)

section \<open>Claims\<close>

text \<open>
  C1. Calendar round trip: for every valid date with a year in -4000..4000, converting
  the date to its ordinal with \<open>dateToNumber\<close> and back with \<open>numberToDate\<close> returns
  the original date. The script does not do so: the forward conversion applies the
  Gregorian correction to every non-negative shifted year, the inverse only from the
  ordinal 2299161 on, and 1 January 1000 comes back as 27 December 999. (The round trip
  does hold for the dates of negative years, 29 February of the BCE leap years apart,
  and from 15 October 1582 on: lemmas \<open>roundtrip_negative_years\<close> and
  \<open>roundtrip_gregorian\<close>.)
\<close>

theorem roundtrip_fails_at_year_1000:
  "dateToNumber \<lparr>year = 1000, month = 1, day = 1\<rparr> = 2086302.5 \<and>
   numberToDate 2086302.5 = \<lparr>year = 999, month = 12, day = 27\<rparr> \<and>
   numberToDate (dateToNumber \<lparr>year = 1000, month = 1, day = 1\<rparr>) =
     \<lparr>year = 999, month = 12, day = 27\<rparr>"
  by code_simp




text \<open>
  C3. Known fixed points: the ordinal of 1 January 2000 is exactly 2451544.5, and
  15 March of year -44 is rendered as the string "15 Mar 44 BCE".
\<close>

theorem known_fixed_points:
  "dateToNumber \<lparr>year = 2000, month = 1, day = 1\<rparr> = 2451544.5 \<and>
   formatDate \<lparr>year = - 44, month = 3, day = 15\<rparr> = ''15 Mar 44 BCE''"
  by code_simp

text \<open>
  C4. Rendering of a date. As stated (year 0 and every negative year render as BCE) the
  property fails at year 0, which the script renders as "0 CE". As amended: for every
  date with a month in 1..12, \<open>formatDate\<close> returns the day, the three-letter month
  name at index \<open>month - 1\<close>, the absolute value of the year and the era, separated by
  single spaces, where the era is BCE exactly for the negative years and CE for year 0
  and the positive years; for every year other than 0 this is the rendering the
  specification describes.
\<close>

theorem formatDate_rendering:
  assumes "1 \<le> month dt" and "month dt \<le> 12"
  shows "formatDate dt =
           String_int (day dt) @ '' '' @ monthNames ! nat (month dt - 1) @ '' '' @
           String_int \<bar>year dt\<bar> @ '' '' @ (if year dt < 0 then ''BCE'' else ''CE'') \<and>
         length (monthNames ! nat (month dt - 1)) = 3 \<and>
         (year dt \<noteq> 0 \<longrightarrow> formatDate dt = formatDate_spec dt)"
  using assms by (simp add: formatDate_def formatDate_spec_def monthNames_length3)

theorem formatDate_rendering_witness:
  "formatDate \<lparr>year = - 753, month = 4, day = 21\<rparr> = ''21 Apr 753 BCE'' \<and>
   formatDate \<lparr>year = 0, month = 12, day = 31\<rparr> = ''31 Dec 0 CE''"
proof -
  have a: "formatDate \<lparr>year = - 753, month = 4, day = 21\<rparr> = ''21 Apr 753 BCE''"
    using formatDate_rendering [of "\<lparr>year = - 753, month = 4, day = 21\<rparr>"] by code_simp
  have b: "formatDate \<lparr>year = 0, month = 12, day = 31\<rparr> = ''31 Dec 0 CE''"
    using formatDate_rendering [of "\<lparr>year = 0, month = 12, day = 31\<rparr>"] by code_simp
  show ?thesis using a b by simp
qed

theorem formatDate_counterexample:
  "formatDate \<lparr>year = 0, month = 1, day = 1\<rparr> = ''1 Jan 0 CE'' \<and>
   formatDate_spec \<lparr>year = 0, month = 1, day = 1\<rparr> = ''1 Jan 0 BCE''"
  by code_simp

text \<open>
  C5. Domain-extent error: \<open>setupScales\<close> raises the data-validity error only for an
  empty event set, and succeeds in particular when the smallest or the largest ordinal
  is 0. The script raises the error for an event set whose only ordinal is 0, where the
  extent test of its first version yields the domain \<open>[0, 0]\<close>.
\<close>

theorem setupScales_zero_ordinal:
  "setupScales [ev\<lparr>dateValue := Some 0\<rparr>] width height categories colors = Inl InvalidExtent \<and>
   extent_first_version [ev\<lparr>dateValue := Some 0\<rparr>] = Inr (0, 0)"
  by (simp add: setupScales_def extent_first_version_def d3_extent_def)


text \<open>
  C7. Zoom scale bounds: the committed transform's scale factor stays within
  \<open>[1, 1000]\<close>, also for the transform initialised from the \<open>zoom\<close> query parameter.
  The script commits the initial transform with the parameter's value as its scale
  factor, whatever the value: one half and 5000 are committed as they are.
\<close>

theorem zoom_parameter_unbounded:
  "t_k (currentZoom (zoomed x (initial_currentZoom (Some (1 / 2))))) = 1 / 2 \<and>
   t_k (currentZoom (zoomed x (initial_currentZoom (Some 5000)))) = 5000"
  by (simp add: zoomed_def initial_currentZoom_def transform_scale_def zoomIdentity_def Let_def)

text \<open>
  C8. Year filter: \<open>filterEvents\<close> keeps, in order, exactly the events whose year is at
  least \<open>startYear\<close> when that bound is present and at most \<open>endYear\<close> when that bound
  is present; for events in the years -50, 10, 500 and 1990 with the bounds 0 and 1000 it
  returns the events of the years 10 and 500.
\<close>

theorem filterEvents_year_filter:
  "filterEvents events startYear endYear =
     filter (\<lambda>event. (\<forall>s. startYear = Some s \<longrightarrow> s \<le> year (date event)) \<and>
                     (\<forall>e. endYear = Some e \<longrightarrow> year (date event) \<le> e)) events \<and>
   (year (date e1) = - 50 \<and> year (date e2) = 10 \<and> year (date e3) = 500 \<and> year (date e4) = 1990
      \<longrightarrow> filterEvents [e1, e2, e3, e4] (Some 0) (Some 1000) = [e2, e3])"
  by (cases startYear; cases endYear) (auto simp: filterEvents_def Let_def intro!: filter_cong)

theorem filterEvents_year_filter_witness:
  "filterEvents
     [\<lparr>date = \<lparr>year = - 50, month = 1, day = 1\<rparr>, name = ''a'', type = ''event'',
       description = [], sources = [], dateValue = None\<rparr>,
      \<lparr>date = \<lparr>year = 10, month = 1, day = 1\<rparr>, name = ''b'', type = ''event'',
       description = [], sources = [], dateValue = None\<rparr>,
      \<lparr>date = \<lparr>year = 500, month = 1, day = 1\<rparr>, name = ''c'', type = ''event'',
       description = [], sources = [], dateValue = None\<rparr>,
      \<lparr>date = \<lparr>year = 1990, month = 1, day = 1\<rparr>, name = ''d'', type = ''event'',
       description = [], sources = [], dateValue = None\<rparr>]
     (Some 0) (Some 1000) =
     [\<lparr>date = \<lparr>year = 10, month = 1, day = 1\<rparr>, name = ''b'', type = ''event'',
       description = [], sources = [], dateValue = None\<rparr>,
      \<lparr>date = \<lparr>year = 500, month = 1, day = 1\<rparr>, name = ''c'', type = ''event'',
       description = [], sources = [], dateValue = None\<rparr>]"
  using filterEvents_year_filter
    [of "[]" None None
      "\<lparr>date = \<lparr>year = - 50, month = 1, day = 1\<rparr>, name = ''a'', type = ''event'',
        description = [], sources = [], dateValue = None\<rparr>"
      "\<lparr>date = \<lparr>year = 10, month = 1, day = 1\<rparr>, name = ''b'', type = ''event'',
        description = [], sources = [], dateValue = None\<rparr>"
      "\<lparr>date = \<lparr>year = 500, month = 1, day = 1\<rparr>, name = ''c'', type = ''event'',
        description = [], sources = [], dateValue = None\<rparr>"
      "\<lparr>date = \<lparr>year = 1990, month = 1, day = 1\<rparr>, name = ''d'', type = ''event'',
        description = [], sources = [], dateValue = None\<rparr>"]
  by simp

text \<open>
  C9. For every date with integer fields the ordinal is a half-integer: its fractional
  part is exactly one half. Hence, in the inverse conversion, \<open>Z\<close> is the ordinal plus
  one half and the residual \<open>F\<close> is exactly 0, so the day is recovered without a
  fractional contribution.
\<close>

theorem dateToNumber_half_integer:
  "frac (dateToNumber dt) = 1 / 2 \<and>
   of_int (numberToDate_Z (dateToNumber dt)) = dateToNumber dt + 1 / 2 \<and>
   numberToDate_F (dateToNumber dt) = 0"
proof -
  define k where "k = jdn dt - 1525"
  have h: "dateToNumber dt = of_int k + 1 / 2"
    by (simp add: dateToNumber_jdn k_def)
  have f: "\<lfloor>dateToNumber dt\<rfloor> = k"
    unfolding h by (rule fl_half)
  have z: "numberToDate_Z (dateToNumber dt) = k + 1"
    unfolding numberToDate_Z_def h by linarith
  show ?thesis
    unfolding frac_def numberToDate_F_def z f by (simp add: h)
qed

text \<open>
  C10. The tooltip divides by the width of the base domain without a guard. For a
  single-point base domain, as \<open>setupScales\<close> returns it when all events share one
  ordinal, every event of the set gets the minutes-in-day value \<open>NaN\<close> (0 / 0) and the
  time string "NaN:NaN", which is no time of day. When the two endpoints differ, the
  value is the finite proportion of the day.
\<close>

theorem tooltip_time_single_point:
  "(setupScales events width height categories colors = Inr sc \<and>
    s_domain (x_scale sc) = (v, v) \<and> d \<in> set events \<and> dateValue d \<noteq> None
      \<longrightarrow> minutesInDay v v d = NaN \<and> tt_timeInDay (showInfo v v d) = ''NaN:NaN'') \<and>
   (dateValue d = Some w \<and> mn \<noteq> mx
      \<longrightarrow> minutesInDay mn mx d = Fin ((w - mn) / (mx - mn) * 1440))"
proof (intro conjI impI)
  assume a: "setupScales events width height categories colors = Inr sc \<and>
    s_domain (x_scale sc) = (v, v) \<and> d \<in> set events \<and> dateValue d \<noteq> None"
  then obtain u where u: "dateValue d = Some u" by auto
  have ext: "d3_extent (map dateValue events) = Some (v, v)"
    using a by (auto simp: setupScales_def split: option.splits prod.splits if_splits)
  have "Some u \<in> set (map dateValue events)"
    using a u by force
  from d3_extent_bounds [OF ext this] have uv: "u = v" by simp
  show "minutesInDay v v d = NaN"
    by (simp add: minutesInDay_def dateValue_num_def u uv)
  show "tt_timeInDay (showInfo v v d) = ''NaN:NaN''"
    by (simp add: showInfo_def timeInDay_def padStart_def minutesInDay_def dateValue_num_def u uv)
next
  assume "dateValue d = Some w \<and> mn \<noteq> mx"
  then show "minutesInDay mn mx d = Fin ((w - mn) / (mx - mn) * 1440)"
    by (simp add: minutesInDay_def dateValue_num_def dayEnd_def dayStart_def)
qed

theorem tooltip_time_single_point_witness:
  "tt_timeInDay (showInfo 5 5
     \<lparr>date = \<lparr>year = - 4712, month = 1, day = 6\<rparr>, name = ''a'', type = ''event'',
      description = [], sources = [], dateValue = Some 5\<rparr>) = ''NaN:NaN'' \<and>
   minutesInDay 4 6
     \<lparr>date = \<lparr>year = - 4712, month = 1, day = 6\<rparr>, name = ''a'', type = ''event'',
      description = [], sources = [], dateValue = Some 5\<rparr> = Fin 720"
  using tooltip_time_single_point
    [of "[\<lparr>date = \<lparr>year = - 4712, month = 1, day = 6\<rparr>, name = ''a'', type = ''event'',
           description = [], sources = [], dateValue = Some 5\<rparr>]"
        850 300 "[]" Map.empty
        "\<lparr>x_scale = \<lparr>s_domain = (5, 5), s_range = (0, 850)\<rparr>,
          categoryScale = \<lparr>p_domain = [], p_range = (50, 250)\<rparr>,
          colorScale = \<lparr>o_domain = [], o_range = []\<rparr>,
          xDay = \<lparr>s_domain = (5, 5), s_range = (0, 1440)\<rparr>\<rparr>"
        5
        "\<lparr>date = \<lparr>year = - 4712, month = 1, day = 6\<rparr>, name = ''a'', type = ''event'',
          description = [], sources = [], dateValue = Some 5\<rparr>"
        5 4 6]
  by (simp add: setupScales_def d3_extent_def dayStart_def dayEnd_def)

end
